theory Spec2Isabelle
  imports Main
begin

section \<open>Data model of frfr.py\<close>

text \<open>
  The enumeration \<open>T\<close> of image transformations.  Its members carry the method numbers
  of \<open>PIL.Image.transpose\<close> as values.
\<close>

datatype T = FLIP_LEFT_RIGHT | FLIP_TOP_BOTTOM | ROTATE_LEFT | ROTATE_180 | ROTATE_RIGHT

fun T_value :: "T \<Rightarrow> nat" where
  "T_value FLIP_LEFT_RIGHT = 0"
| "T_value FLIP_TOP_BOTTOM = 1"
| "T_value ROTATE_LEFT = 2"
| "T_value ROTATE_180 = 3"
| "T_value ROTATE_RIGHT = 4"

text \<open>The exceptions that the code can raise.\<close>

datatype error = KeyError | TypeError | ValueError | RecursionError

text \<open>The two base transformations, \<open>f = T.FLIP_TOP_BOTTOM\<close> and \<open>r = T.ROTATE_RIGHT\<close>.\<close>

abbreviation f :: T where "f \<equiv> FLIP_TOP_BOTTOM"
abbreviation r :: T where "r \<equiv> ROTATE_RIGHT"

text \<open>
  The equivalence classes of base transformation sequences of length up to four.  A tuple
  is a list; the first member of a class is its representative.
\<close>

definition R :: "T list list" where
  "R = [[r], [f, f, r], [r, f, f]]"

definition F :: "T list list" where
  "F = [[f], [f, f, f], [r, f, r]]"

definition RR :: "T list list" where
  "RR = [[r, r], [r, r, f, f], [f, f, r, r], [f, r, r, f], [r, f, f, r]]"

definition ID :: "T list list" where
  "ID = [[], [f, f], [r, r, r, r], [f, f, f, f], [r, f, r, f], [f, r, f, r]]"

definition FF :: "T list list" where
  "FF = ID"

definition RF :: "T list list" where
  "RF = [[r, f], [r, r, f, r], [f, r, r, r], [r, f, f, f], [f, f, r, f]]"

definition FR :: "T list list" where
  "FR = [[f, r], [r, r, r, f], [r, f, r, r], [f, r, f, f], [f, f, f, r]]"

definition RRR :: "T list list" where
  "RRR = [[r, r, r], [f, r, f]]"

definition FRR :: "T list list" where
  "FRR = [[f, r, r], [r, r, f]]"

text \<open>
  \<open>ALL_EQ\<close> is a Python set of the eight classes; the loop of \<open>representative\<close> visits
  it in an order that the language leaves open.  The list below fixes the order of the
  set display; lemma \<open>representative_any_order\<close> shows that the order has no influence.
\<close>

definition ALL_EQ :: "T list list list" where
  "ALL_EQ = [R, F, RR, FF, RF, FR, RRR, FRR]"

text \<open>The dictionary \<open>BIJECTIVE_BASE_RICH_MAP\<close>, as the list of its items (no key repeats).\<close>

definition BIJECTIVE_BASE_RICH_MAP :: "(T list \<times> T list) list" where
  "BIJECTIVE_BASE_RICH_MAP =
    [([ROTATE_RIGHT], [ROTATE_RIGHT]),
     ([FLIP_TOP_BOTTOM], [FLIP_TOP_BOTTOM]),
     ([ROTATE_RIGHT, ROTATE_RIGHT], [ROTATE_180]),
     ([ROTATE_180], [ROTATE_RIGHT, ROTATE_RIGHT]),
     ([], []),
     ([ROTATE_RIGHT, FLIP_TOP_BOTTOM], [ROTATE_RIGHT, FLIP_TOP_BOTTOM]),
     ([FLIP_TOP_BOTTOM, ROTATE_RIGHT], [FLIP_TOP_BOTTOM, ROTATE_RIGHT]),
     ([ROTATE_RIGHT, ROTATE_RIGHT, ROTATE_RIGHT], [ROTATE_LEFT]),
     ([ROTATE_LEFT], [ROTATE_RIGHT, ROTATE_RIGHT, ROTATE_RIGHT]),
     ([FLIP_TOP_BOTTOM, ROTATE_RIGHT, ROTATE_RIGHT], [FLIP_LEFT_RIGHT]),
     ([FLIP_LEFT_RIGHT], [FLIP_TOP_BOTTOM, ROTATE_RIGHT, ROTATE_RIGHT])]"

section \<open>The reduction\<close>

text \<open>
  \<open>representative\<close>: the loop over \<open>ALL_EQ\<close> returns \<open>EQ[0]\<close> for the first class that
  holds the sequence.  When no class holds it the loop ends and the function returns
  Python's \<open>None\<close>, which is \<open>None\<close> here; \<open>Some s\<close> is the tuple \<open>s\<close>.
\<close>

fun representative_loop :: "T list list list \<Rightarrow> T list \<Rightarrow> T list option" where
  "representative_loop [] transformation_sequence = None"
| "representative_loop (EQ # rest) transformation_sequence =
     (if transformation_sequence \<in> set EQ then Some (hd EQ)
      else representative_loop rest transformation_sequence)"

definition representative :: "T list \<Rightarrow> T list option" where
  "representative transformation_sequence = representative_loop ALL_EQ transformation_sequence"

text \<open>
  \<open>reduce_base_form\<close>.  In the recursive branch the representative of the first four
  elements is concatenated with the tail; when that representative is \<open>None\<close> the
  concatenation \<open>None + tuple\<close> raises \<open>TypeError\<close>.

  The function calls itself from inside its own frame, once for each window of four, so
  the depth of the interpreter's stack grows with the sequence, and the interpreter bounds
  that depth (\<open>sys.getrecursionlimit()\<close>, 1000 unless the program raises it, which this
  one does not).  The first argument \<open>depth\<close> is the number of nested calls of
  \<open>reduce_base_form\<close> that the limit still leaves room for; the frames of the callers and
  the one frame of a call of \<open>representative\<close> are counted off it beforehand.  A call that
  finds no room raises \<open>RecursionError\<close>.
\<close>

fun reduce_base_form :: "nat \<Rightarrow> T list \<Rightarrow> error + T list option" where
  "reduce_base_form 0 transformation_sequence = Inl RecursionError"
| "reduce_base_form (Suc depth) transformation_sequence =
     (if length transformation_sequence < 5 then Inr (representative transformation_sequence)
      else (case representative (take 4 transformation_sequence) of
              None \<Rightarrow> Inl TypeError
            | Some rep \<Rightarrow> reduce_base_form depth (rep @ drop 4 transformation_sequence)))"

text \<open>
  \<open>rewrite_to_base_form\<close>: the loop extends \<open>base_form\<close> by the dictionary's entry for the
  one-element tuple of each transformation; a missing key raises \<open>KeyError\<close>.
\<close>

fun rewrite_to_base_form_loop :: "T list \<Rightarrow> T list \<Rightarrow> error + T list" where
  "rewrite_to_base_form_loop [] base_form = Inr base_form"
| "rewrite_to_base_form_loop (transformation # rest) base_form =
     (case map_of BIJECTIVE_BASE_RICH_MAP [transformation] of
        None \<Rightarrow> Inl KeyError
      | Some v \<Rightarrow> rewrite_to_base_form_loop rest (base_form @ v))"

definition rewrite_to_base_form :: "T list \<Rightarrow> error + T list" where
  "rewrite_to_base_form rich_transformation_sequence =
     rewrite_to_base_form_loop rich_transformation_sequence []"

text \<open>
  \<open>rewrite_to_rich_form\<close>.  The argument is what \<open>reduce_base_form\<close> returned, a tuple or
  \<open>None\<close>.  A missing key raises \<open>KeyError\<close>, which the handler catches; the handler then
  builds the message of the \<open>ValueError\<close> by \<open>str + tuple\<close> (or \<open>str + None\<close>), and this
  concatenation raises \<open>TypeError\<close> before any \<open>ValueError\<close> exists.
\<close>

definition rewrite_to_rich_form :: "T list option \<Rightarrow> error + T list" where
  "rewrite_to_rich_form reduced_base_transformation_sequence =
     (case reduced_base_transformation_sequence of
        None \<Rightarrow> Inl TypeError
      | Some s \<Rightarrow> (case map_of BIJECTIVE_BASE_RICH_MAP s of
                    None \<Rightarrow> Inl TypeError
                  | Some v \<Rightarrow> Inr v))"

text \<open>
  \<open>reduce\<close>.  Its calls of the two rewriting functions have a fixed depth; \<open>depth\<close> is the
  room that the interpreter's limit leaves for the nested calls of \<open>reduce_base_form\<close>.
\<close>

definition reduce :: "nat \<Rightarrow> T list \<Rightarrow> error + T list" where
  "reduce depth transformation_sequence =
     (case rewrite_to_base_form transformation_sequence of
        Inl e \<Rightarrow> Inl e
      | Inr base_form \<Rightarrow>
          (case reduce_base_form depth base_form of
             Inl e \<Rightarrow> Inl e
           | Inr reduced \<Rightarrow> rewrite_to_rich_form reduced))"

text \<open>
  The sequences that \<open>reduce_base_form\<close> hands to \<open>representative\<close>, in the order of the
  calls: none when the call itself finds no room, the whole sequence when it is shorter
  than five, else the first four elements and then the lookups of the recursive call.
\<close>

fun lookups :: "nat \<Rightarrow> T list \<Rightarrow> T list list" where
  "lookups 0 transformation_sequence = []"
| "lookups (Suc depth) transformation_sequence =
     (if length transformation_sequence < 5 then [transformation_sequence]
      else take 4 transformation_sequence #
        (case representative (take 4 transformation_sequence) of
           None \<Rightarrow> []
         | Some rep \<Rightarrow> lookups depth (rep @ drop 4 transformation_sequence)))"

section \<open>Images and \<open>apply\<close>\<close>

text \<open>
  An image of the imaging library: its size and its pixels.  The pixel at column \<open>x\<close> and
  row \<open>y\<close> (the origin is the top left corner) is \<open>pixel img x y\<close>; the coordinates inside
  the image are \<open>0 \<le> x < width img\<close> and \<open>0 \<le> y < height img\<close>.
\<close>

record 'p Image =
  width :: nat
  height :: nat
  pixel :: "int \<Rightarrow> int \<Rightarrow> 'p"

text \<open>
  \<open>Image.transpose(method)\<close> of the imaging library, by method number: 0 flips left and
  right, 1 flips top and bottom, 2, 3 and 4 rotate by 90, 180 and 270 degrees
  counterclockwise, 5 and 6 reflect about the two diagonals; any other number raises
  \<open>ValueError\<close>.  The result is a new image.
\<close>

definition Image_transpose :: "nat \<Rightarrow> 'p Image \<Rightarrow> error + 'p Image" where
  "Image_transpose method img =
     (let w = int (width img); h = int (height img); p = pixel img in
      if method = 0 then
        Inr \<lparr>width = width img, height = height img, pixel = (\<lambda>x y. p (w - 1 - x) y)\<rparr>
      else if method = 1 then
        Inr \<lparr>width = width img, height = height img, pixel = (\<lambda>x y. p x (h - 1 - y))\<rparr>
      else if method = 2 then
        Inr \<lparr>width = height img, height = width img, pixel = (\<lambda>x y. p (w - 1 - y) x)\<rparr>
      else if method = 3 then
        Inr \<lparr>width = width img, height = height img,
             pixel = (\<lambda>x y. p (w - 1 - x) (h - 1 - y))\<rparr>
      else if method = 4 then
        Inr \<lparr>width = height img, height = width img, pixel = (\<lambda>x y. p y (h - 1 - x))\<rparr>
      else if method = 5 then
        Inr \<lparr>width = height img, height = width img, pixel = (\<lambda>x y. p y x)\<rparr>
      else if method = 6 then
        Inr \<lparr>width = height img, height = width img,
             pixel = (\<lambda>x y. p (w - 1 - y) (h - 1 - x))\<rparr>
      else Inl ValueError)"

text \<open>\<open>apply\<close>: the loop transposes the image by the value of each transformation in turn.\<close>

fun apply_seq :: "T list \<Rightarrow> 'p Image \<Rightarrow> error + 'p Image" where
  "apply_seq [] img = Inr img"
| "apply_seq (op # rest) img =
     (case Image_transpose (T_value op) img of
        Inl e \<Rightarrow> Inl e
      | Inr img' \<Rightarrow> apply_seq rest img')"

section \<open>Auxiliary notions for the statements\<close>

text \<open>The representatives \<open>EQ[0]\<close> of the eight classes, in the order of \<open>ALL_EQ\<close>.\<close>

definition canonical_forms :: "T list list" where
  "canonical_forms = map hd ALL_EQ"

text \<open>
  The argument of the recursive call that \<open>reduce_base_form\<close> makes on a sequence, when it
  makes one: none for a sequence shorter than five, and none when the lookup of the first
  four elements finds no class (the call then raises).
\<close>

definition recursive_call :: "T list \<Rightarrow> T list option" where
  "recursive_call transformation_sequence =
     (if length transformation_sequence < 5 then None
      else (case representative (take 4 transformation_sequence) of
              None \<Rightarrow> None
            | Some rep \<Rightarrow> Some (rep @ drop 4 transformation_sequence)))"

text \<open>A two by two image whose four pixels differ: each pixel holds its own coordinates.\<close>

definition an_image :: "(int \<times> int) Image" where
  "an_image = \<lparr>width = 2, height = 2, pixel = (\<lambda>x y. (x, y))\<rparr>"

section \<open>The table of classes\<close>

lemmas class_defs = ALL_EQ_def R_def F_def RR_def FF_def ID_def RF_def FR_def RRR_def FRR_def

text \<open>The two assertions of the source on the table: no sequence occurs twice, and the
  classes hold 31 sequences.\<close>

lemma ALL_EQ_distinct: "distinct (concat ALL_EQ)"
  by (simp add: class_defs)

lemma ALL_EQ_count: "length (concat ALL_EQ) = 31"
  by (simp add: class_defs)

lemma canonical_forms_eq:
  "canonical_forms = [[r], [f], [r, r], [], [r, f], [f, r], [r, r, r], [f, r, r]]"
  by (simp add: canonical_forms_def class_defs)

lemma ALL_EQ_disjoint:
  "\<forall>A \<in> set ALL_EQ. \<forall>B \<in> set ALL_EQ. A \<noteq> B \<longrightarrow> set A \<inter> set B = {}"
  using ALL_EQ_distinct unfolding distinct_concat_iff by blast

lemma representative_loop_disjoint_iff:
  assumes "\<forall>A \<in> set classes. \<forall>B \<in> set classes. A \<noteq> B \<longrightarrow> set A \<inter> set B = {}"
  shows "representative_loop classes s = Some rep \<longleftrightarrow>
           (\<exists>EQ \<in> set classes. s \<in> set EQ \<and> rep = hd EQ)"
  using assms
proof (induction classes)
  case Nil
  show ?case by simp
next
  case (Cons EQ rest)
  show ?case
  proof (cases "s \<in> set EQ")
    case True
    have "EQ' = EQ" if "EQ' \<in> set (EQ # rest)" "s \<in> set EQ'" for EQ'
      using Cons.prems that True by (metis disjoint_iff list.set_intros(1))
    with True show ?thesis by auto
  next
    case False
    with Cons show ?thesis by auto
  qed
qed

lemma representative_iff:
  "representative s = Some rep \<longleftrightarrow> (\<exists>EQ \<in> set ALL_EQ. s \<in> set EQ \<and> rep = hd EQ)"
  unfolding representative_def by (rule representative_loop_disjoint_iff [OF ALL_EQ_disjoint])

lemma representative_any_order:
  assumes "set classes = set ALL_EQ"
  shows "representative_loop classes s = representative s"
proof -
  have "\<forall>A \<in> set classes. \<forall>B \<in> set classes. A \<noteq> B \<longrightarrow> set A \<inter> set B = {}"
    using ALL_EQ_disjoint assms by simp
  from representative_loop_disjoint_iff [OF this] assms
  have "representative_loop classes s = Some rep \<longleftrightarrow> representative s = Some rep" for rep
    by (simp add: representative_iff)
  then show ?thesis
    by (cases "representative s") (simp_all, metis option.exhaust)
qed

lemma representative_None_iff:
  "representative s = None \<longleftrightarrow> s \<notin> set (concat ALL_EQ)"
  unfolding representative_def
proof -
  have "representative_loop classes s = None \<longleftrightarrow> s \<notin> set (concat classes)" for classes
    by (induction classes) auto
  then show "representative_loop ALL_EQ s = None \<longleftrightarrow> s \<notin> set (concat ALL_EQ)" .
qed


lemma n_lists_in_table:
  "set (List.n_lists 0 [f, r]) \<subseteq> set (concat ALL_EQ)"
  "set (List.n_lists 1 [f, r]) \<subseteq> set (concat ALL_EQ)"
  "set (List.n_lists 2 [f, r]) \<subseteq> set (concat ALL_EQ)"
  "set (List.n_lists 3 [f, r]) \<subseteq> set (concat ALL_EQ)"
  "set (List.n_lists 4 [f, r]) \<subseteq> set (concat ALL_EQ)"
  by (simp_all add: class_defs eval_nat_numeral)

lemma short_base_in_table:
  assumes "set s \<subseteq> {f, r}" and "length s \<le> 4"
  shows "s \<in> set (concat ALL_EQ)"
proof -
  have mem: "s \<in> set (List.n_lists (length s) [f, r])"
    using assms(1) by (simp add: set_n_lists)
  from assms(2) consider "length s = 0" | "length s = 1" | "length s = 2"
    | "length s = 3" | "length s = 4"
    by linarith
  then show ?thesis
  proof cases
    case 1
    with mem n_lists_in_table(1) show ?thesis by (metis subsetD)
  next
    case 2
    with mem n_lists_in_table(2) show ?thesis by (metis subsetD)
  next
    case 3
    with mem n_lists_in_table(3) show ?thesis by (metis subsetD)
  next
    case 4
    with mem n_lists_in_table(4) show ?thesis by (metis subsetD)
  next
    case 5
    with mem n_lists_in_table(5) show ?thesis by (metis subsetD)
  qed
qed


section \<open>Images\<close>

lemma apply_seq_append:
  "apply_seq (xs @ ys) img =
     (case apply_seq xs img of Inl e \<Rightarrow> Inl e | Inr img' \<Rightarrow> apply_seq ys img')"
  by (induction xs arbitrary: img) (auto split: sum.splits)

lemma Image_transpose_total: "\<exists>img'. Image_transpose (T_value t) img = Inr img'"
  by (cases t) (simp_all add: Image_transpose_def Let_def)

lemma apply_seq_total: "\<exists>img'. apply_seq s img = Inr img'"
proof (induction s arbitrary: img)
  case Nil
  show ?case by simp
next
  case (Cons t s)
  obtain img1 where "Image_transpose (T_value t) img = Inr img1"
    using Image_transpose_total by blast
  with Cons [of img1] show ?case by simp
qed

lemma class_same_image:
  assumes "EQ \<in> set ALL_EQ" and "s \<in> set EQ"
  shows "apply_seq (hd EQ) (img :: 'p Image) = apply_seq s img"
  using assms
  by (auto simp add: class_defs Image_transpose_def Let_def)

section \<open>The three stages of \<open>reduce\<close>\<close>

lemma expand_single:
  "\<exists>v. map_of BIJECTIVE_BASE_RICH_MAP [t] = Some v \<and> set v \<subseteq> {f, r} \<and> length v \<le> 3 \<and>
       (\<forall>img :: 'p Image. apply_seq v img = apply_seq [t] img)"
  by (cases t) (simp_all add: BIJECTIVE_BASE_RICH_MAP_def Image_transpose_def Let_def)

lemma rewrite_to_base_form_loop_spec:
  "\<exists>b. rewrite_to_base_form_loop s acc = Inr (acc @ b) \<and> set b \<subseteq> {f, r} \<and>
       length b \<le> 3 * length s \<and>
       (\<forall>img :: 'p Image. apply_seq b img = apply_seq s img)"
proof (induction s arbitrary: acc)
  case Nil
  show ?case by simp
next
  case (Cons t s)
  obtain v where v: "map_of BIJECTIVE_BASE_RICH_MAP [t] = Some v" "set v \<subseteq> {f, r}"
    "length v \<le> 3" "\<forall>img :: 'p Image. apply_seq v img = apply_seq [t] img"
    using expand_single [where ?'p = 'p] by blast
  obtain b where b: "rewrite_to_base_form_loop s (acc @ v) = Inr ((acc @ v) @ b)"
    "set b \<subseteq> {f, r}" "length b \<le> 3 * length s"
    "\<forall>img :: 'p Image. apply_seq b img = apply_seq s img"
    using Cons [of "acc @ v"] by blast
  have "\<forall>img :: 'p Image. apply_seq (v @ b) img = apply_seq (t # s) img"
    using v(4) b(4) by (simp add: apply_seq_append split: sum.splits)
  moreover have "length (v @ b) \<le> 3 * length (t # s)"
    using v(3) b(3) by simp
  ultimately show ?case
    using v(1,2) b(1,2) by (intro exI [of _ "v @ b"]) simp
qed

lemma rewrite_to_base_form_spec:
  "\<exists>b. rewrite_to_base_form s = Inr b \<and> set b \<subseteq> {f, r} \<and> length b \<le> 3 * length s \<and>
       (\<forall>img :: 'p Image. apply_seq b img = apply_seq s img)"
  using rewrite_to_base_form_loop_spec [of s "[]", where ?'p = 'p]
  by (simp add: rewrite_to_base_form_def)

lemma representative_base:
  assumes "set s \<subseteq> {f, r}" and "length s \<le> 4"
  shows "\<exists>rep. representative s = Some rep \<and> rep \<in> set canonical_forms \<and>
           set rep \<subseteq> {f, r} \<and> (\<forall>img :: 'p Image. apply_seq rep img = apply_seq s img)"
proof -
  from short_base_in_table [OF assms] have "representative s \<noteq> None"
    by (simp add: representative_None_iff)
  then obtain rep where rep: "representative s = Some rep"
    by blast
  then obtain EQ where EQ: "EQ \<in> set ALL_EQ" "s \<in> set EQ" "rep = hd EQ"
    by (auto simp add: representative_iff)
  have "rep \<in> set canonical_forms"
    using EQ by (simp add: canonical_forms_def)
  moreover from this have "set rep \<subseteq> {f, r}"
    by (auto simp add: canonical_forms_eq)
  moreover have "\<forall>img :: 'p Image. apply_seq rep img = apply_seq s img"
    using class_same_image [OF EQ(1,2), where ?'p = 'p] EQ(3) by simp
  ultimately show ?thesis
    using rep by blast
qed

text \<open>The representative of a window of four has at most two elements.\<close>

lemma window_representative_short:
  assumes "representative w = Some rep" and "length w = 4"
  shows "length rep \<le> 2"
proof -
  from assms(1) obtain EQ where "EQ \<in> set ALL_EQ" "w \<in> set EQ" "rep = hd EQ"
    by (auto simp add: representative_iff)
  with assms(2) show ?thesis
    by (auto simp add: class_defs)
qed

lemma recursive_call_shrinks_by_two:
  assumes "recursive_call s = Some s'"
  shows "length s' + 2 \<le> length s"
proof -
  from assms obtain rep where rep: "\<not> length s < 5" "representative (take 4 s) = Some rep"
    "s' = rep @ drop 4 s"
    by (auto simp add: recursive_call_def split: if_splits option.splits)
  from rep(1) have "length (take 4 s) = 4"
    by simp
  with rep(2) have "length rep \<le> 2"
    by (rule window_representative_short)
  with rep(1,3) show ?thesis
    by simp
qed

lemma recursive_call_shrinks:
  "recursive_call s = Some s' \<Longrightarrow> length s' < length s"
  using recursive_call_shrinks_by_two [of s s'] by simp

lemma reduce_base_form_unfold:
  "reduce_base_form (Suc depth) s =
     (case recursive_call s of
        Some s' \<Rightarrow> reduce_base_form depth s'
      | None \<Rightarrow> if length s < 5 then Inr (representative s) else Inl TypeError)"
  by (simp add: recursive_call_def split: option.splits)

text \<open>With room for more than half the length, no call overflows the stack.\<close>

lemma reduce_base_form_enough_room:
  "length s div 2 < depth \<Longrightarrow> reduce_base_form depth s \<noteq> Inl RecursionError"
proof (induction depth arbitrary: s)
  case 0
  then show ?case by simp
next
  case (Suc depth)
  show ?case
  proof (cases "recursive_call s")
    case None
    then show ?thesis
      by (simp add: reduce_base_form_unfold del: reduce_base_form.simps)
  next
    case (Some s')
    then have "length s' + 2 \<le> length s"
      by (rule recursive_call_shrinks_by_two)
    with Suc.prems have "length s' div 2 < depth"
      by linarith
    then have "reduce_base_form depth s' \<noteq> Inl RecursionError"
      by (rule Suc.IH)
    with Some show ?thesis
      by (simp add: reduce_base_form_unfold del: reduce_base_form.simps)
  qed
qed

lemma reduce_base_form_spec:
  assumes "set b \<subseteq> {f, r}"
  shows "\<exists>c. c \<in> set canonical_forms \<and>
       (\<forall>img :: 'p Image. apply_seq c img = apply_seq b img) \<and>
       (\<forall>depth. reduce_base_form depth b = Inr (Some c) \<or>
                reduce_base_form depth b = Inl RecursionError)"
  using assms
proof (induction b rule: length_induct)
  case (1 b)
  show ?case
  proof (cases "length b < 5")
    case True
    then obtain c where c: "representative b = Some c" "c \<in> set canonical_forms"
      "\<forall>img :: 'p Image. apply_seq c img = apply_seq b img"
      using representative_base [of b, where ?'p = 'p] "1.prems" by auto
    have "reduce_base_form depth b = Inr (Some c) \<or>
          reduce_base_form depth b = Inl RecursionError" for depth
      using True c(1) by (cases depth) simp_all
    with c(2,3) show ?thesis
      by blast
  next
    case False
    have "set (take 4 b) \<subseteq> {f, r}"
      using "1.prems" by (meson set_take_subset subset_trans)
    then obtain rep where rep: "representative (take 4 b) = Some rep" "set rep \<subseteq> {f, r}"
      "\<forall>img :: 'p Image. apply_seq rep img = apply_seq (take 4 b) img"
      using representative_base [of "take 4 b", where ?'p = 'p] by auto
    have call: "recursive_call b = Some (rep @ drop 4 b)"
      using False rep(1) by (simp add: recursive_call_def)
    then have shorter: "length (rep @ drop 4 b) < length b"
      by (rule recursive_call_shrinks)
    have "set (rep @ drop 4 b) \<subseteq> {f, r}"
      using rep(2) "1.prems" by (auto dest: in_set_dropD)
    with "1.IH" shorter obtain c where c: "c \<in> set canonical_forms"
      "\<forall>img :: 'p Image. apply_seq c img = apply_seq (rep @ drop 4 b) img"
      "\<forall>depth. reduce_base_form depth (rep @ drop 4 b) = Inr (Some c) \<or>
               reduce_base_form depth (rep @ drop 4 b) = Inl RecursionError"
      by blast
    have "apply_seq (rep @ drop 4 b) img = apply_seq (take 4 b @ drop 4 b) img"
      for img :: "'p Image"
      unfolding apply_seq_append using rep(3) by simp
    then have same: "\<forall>img :: 'p Image. apply_seq c img = apply_seq b img"
      using c(2) by simp
    have "reduce_base_form depth b = Inr (Some c) \<or>
          reduce_base_form depth b = Inl RecursionError" for depth
    proof (cases depth)
      case 0
      then show ?thesis by simp
    next
      case (Suc d)
      with call c(3) show ?thesis
        by (simp add: reduce_base_form_unfold del: reduce_base_form.simps)
    qed
    with c(1) same show ?thesis
      by blast
  qed
qed

lemma rewrite_to_rich_form_canonical:
  assumes "c \<in> set canonical_forms"
  shows "\<exists>out. rewrite_to_rich_form (Some c) = Inr out \<and> length out \<le> 2 \<and>
           (\<forall>img :: 'p Image. apply_seq out img = apply_seq c img)"
  using assms
  by (auto simp add: canonical_forms_eq rewrite_to_rich_form_def BIJECTIVE_BASE_RICH_MAP_def
      Image_transpose_def Let_def)

lemma reduce_spec:
  "\<exists>b c out. rewrite_to_base_form s = Inr b \<and> set b \<subseteq> {f, r} \<and> length b \<le> 3 * length s \<and>
     c \<in> set canonical_forms \<and> rewrite_to_rich_form (Some c) = Inr out \<and> length out \<le> 2 \<and>
     (\<forall>img :: 'p Image. apply_seq out img = apply_seq s img) \<and>
     (\<forall>depth. reduce_base_form depth b = Inr (Some c) \<or>
              reduce_base_form depth b = Inl RecursionError) \<and>
     (\<forall>depth. length b div 2 < depth \<longrightarrow> reduce_base_form depth b = Inr (Some c)) \<and>
     (\<forall>depth. reduce depth s = Inr out \<or> reduce depth s = Inl RecursionError) \<and>
     (\<forall>depth. 3 * length s div 2 < depth \<longrightarrow> reduce depth s = Inr out)"
proof -
  obtain b where b: "rewrite_to_base_form s = Inr b" "set b \<subseteq> {f, r}"
    "length b \<le> 3 * length s" "\<forall>img :: 'p Image. apply_seq b img = apply_seq s img"
    using rewrite_to_base_form_spec [of s, where ?'p = 'p] by blast
  obtain c where c: "c \<in> set canonical_forms"
    "\<forall>img :: 'p Image. apply_seq c img = apply_seq b img"
    "\<forall>depth. reduce_base_form depth b = Inr (Some c) \<or>
             reduce_base_form depth b = Inl RecursionError"
    using reduce_base_form_spec [OF b(2), where ?'p = 'p] by blast
  obtain out where out: "rewrite_to_rich_form (Some c) = Inr out" "length out \<le> 2"
    "\<forall>img :: 'p Image. apply_seq out img = apply_seq c img"
    using rewrite_to_rich_form_canonical [OF c(1), where ?'p = 'p] by blast
  have room: "\<forall>depth. length b div 2 < depth \<longrightarrow> reduce_base_form depth b = Inr (Some c)"
    using c(3) reduce_base_form_enough_room by blast
  have either: "reduce depth s = Inr out \<or> reduce depth s = Inl RecursionError" for depth
    using c(3) [rule_format, of depth] b(1) out(1) by (auto simp add: reduce_def)
  have "reduce depth s = Inr out" if "3 * length s div 2 < depth" for depth
  proof -
    from that b(3) have "length b div 2 < depth"
      by linarith
    with room have "reduce_base_form depth b = Inr (Some c)"
      by blast
    with b(1) out(1) show ?thesis
      by (simp add: reduce_def)
  qed
  with b c out room either show ?thesis
    by - (rule exI [of _ b], rule exI [of _ c], rule exI [of _ out], simp)
qed

lemma reduce_fixed:
  assumes "c \<in> set canonical_forms" and "rewrite_to_rich_form (Some c) = Inr out"
  shows "reduce (Suc depth) out = Inr out"
  using assms
  by (auto simp add: canonical_forms_eq rewrite_to_rich_form_def BIJECTIVE_BASE_RICH_MAP_def
      reduce_def rewrite_to_base_form_def representative_def class_defs)

lemma reduce_no_room: "reduce 0 s = Inl RecursionError"
  using rewrite_to_base_form_spec [of s, where ?'p = unit] by (auto simp add: reduce_def)

lemma lookups_found:
  "set b \<subseteq> {f, r} \<Longrightarrow> \<forall>w \<in> set (lookups depth b). representative w \<noteq> None"
proof (induction depth arbitrary: b)
  case 0
  show ?case by simp
next
  case (Suc depth)
  show ?case
  proof (cases "length b < 5")
    case True
    with representative_base [of b, where ?'p = unit] Suc.prems show ?thesis
      by auto
  next
    case False
    have "set (take 4 b) \<subseteq> {f, r}"
      using Suc.prems by (meson set_take_subset subset_trans)
    then obtain rep where rep: "representative (take 4 b) = Some rep" "set rep \<subseteq> {f, r}"
      using representative_base [of "take 4 b", where ?'p = unit] by auto
    have "set (rep @ drop 4 b) \<subseteq> {f, r}"
      using rep(2) Suc.prems by (auto dest: in_set_dropD)
    from Suc.IH [OF this] False rep(1) show ?thesis
      by simp
  qed
qed

lemma representatives_distinct_images:
  "distinct (map (\<lambda>c. case apply_seq c an_image of
                         Inl e \<Rightarrow> None
                       | Inr img \<Rightarrow> Some (pixel img 0 0, pixel img 1 0)) canonical_forms)"
  by (simp add: canonical_forms_eq an_image_def Image_transpose_def Let_def)

section \<open>The dictionary and the lookups\<close>

lemma rich_form_Inr_iff:
  "(\<exists>out. rewrite_to_rich_form (Some s) = Inr out) \<longleftrightarrow>
     s \<in> set (map fst BIJECTIVE_BASE_RICH_MAP)"
proof (cases "map_of BIJECTIVE_BASE_RICH_MAP s")
  case None
  then have "s \<notin> fst ` set BIJECTIVE_BASE_RICH_MAP"
    by (simp add: map_of_eq_None_iff)
  with None show ?thesis
    by (simp add: rewrite_to_rich_form_def)
next
  case (Some v)
  then have "(s, v) \<in> set BIJECTIVE_BASE_RICH_MAP"
    by (rule map_of_SomeD)
  then have "s \<in> fst ` set BIJECTIVE_BASE_RICH_MAP"
    by force
  with Some show ?thesis
    by (simp add: rewrite_to_rich_form_def)
qed

lemma rich_form_Inl_iff:
  "(\<exists>e. rewrite_to_rich_form (Some s) = Inl e) \<longleftrightarrow>
     s \<notin> set (map fst BIJECTIVE_BASE_RICH_MAP)"
proof -
  have "(\<exists>e. rewrite_to_rich_form (Some s) = Inl e) \<longleftrightarrow>
        \<not> (\<exists>out. rewrite_to_rich_form (Some s) = Inr out)"
    by (cases "rewrite_to_rich_form (Some s)") simp_all
  then show ?thesis
    by (simp only: rich_form_Inr_iff)
qed

lemma keys_eq:
  "map fst BIJECTIVE_BASE_RICH_MAP =
     [[r], [f], [r, r], [ROTATE_180], [], [r, f], [f, r], [r, r, r], [ROTATE_LEFT],
      [f, r, r], [FLIP_LEFT_RIGHT]]"
  by (simp add: BIJECTIVE_BASE_RICH_MAP_def)


lemma keys_set:
  "set (map fst BIJECTIVE_BASE_RICH_MAP) =
     set canonical_forms \<union> {[ROTATE_180], [ROTATE_LEFT], [FLIP_LEFT_RIGHT]}"
  unfolding keys_eq canonical_forms_eq by auto

lemma base_keys_set:
  "{k \<in> set (map fst BIJECTIVE_BASE_RICH_MAP). set k \<subseteq> {f, r}} = set canonical_forms"
  unfolding keys_eq canonical_forms_eq by auto

text \<open>
  On sequences of the two base transformations \<open>rewrite_to_rich_form\<close> succeeds exactly on
  the eight canonical forms.  On a sequence that is no key its handler raises \<open>TypeError\<close>,
  not the \<open>ValueError\<close> that its \<open>raise\<close> statement names; no input makes it raise
  \<open>ValueError\<close>.
\<close>

lemma rich_form_on_base_sequences:
  assumes "set s \<subseteq> {f, r}"
  shows "(\<exists>out. rewrite_to_rich_form (Some s) = Inr out) \<longleftrightarrow> s \<in> set canonical_forms"
  using assms base_keys_set rich_form_Inr_iff [of s] by blast

lemma rich_form_error: "rewrite_to_rich_form x = Inl e \<Longrightarrow> e = TypeError"
  by (auto simp add: rewrite_to_rich_form_def split: option.splits)

text \<open>
  The lookups of a call all find a class exactly when the call returns a tuple or
  overflows the stack: a lookup without a match ends the call with \<open>None\<close> or with
  \<open>TypeError\<close>.
\<close>

lemma lookups_match_iff:
  "(\<forall>w \<in> set (lookups depth b). representative w \<noteq> None) \<longleftrightarrow>
   (\<exists>c. reduce_base_form depth b = Inr (Some c)) \<or>
   reduce_base_form depth b = Inl RecursionError"
proof (induction depth arbitrary: b)
  case 0
  show ?case by simp
next
  case (Suc depth)
  show ?case
  proof (cases "length b < 5")
    case True
    then show ?thesis
      by simp
  next
    case False
    show ?thesis
    proof (cases "representative (take 4 b)")
      case None
      with False show ?thesis
        by simp
    next
      case (Some rep)
      with False Suc.IH [of "rep @ drop 4 b"] show ?thesis
        by simp
    qed
  qed
qed



section \<open>The properties of the specification\<close>

text \<open>
  In the statements below \<open>depth\<close> is the room that the interpreter's recursion limit
  leaves for the nested calls of \<open>reduce_base_form\<close>.  For each sequence there is one
  result \<open>out\<close>: at every depth \<open>reduce\<close> returns \<open>out\<close> or raises \<open>RecursionError\<close>, and
  it returns \<open>out\<close> at every depth above one and a half times the length of the sequence.
\<close>

text \<open>
  C1.  For every sequence \<open>s\<close> of the five named transformations and every image,
  applying the sequence that \<open>reduce\<close> returns yields exactly the image that applying \<open>s\<close>
  yields; neither application raises.
\<close>

theorem reduce_preserves_image:
  "\<exists>out img'.
     (\<forall>depth. reduce depth s = Inr out \<or> reduce depth s = Inl RecursionError) \<and>
     (\<forall>depth. 3 * length s div 2 < depth \<longrightarrow> reduce depth s = Inr out) \<and>
     apply_seq s img = Inr img' \<and> apply_seq out img = Inr img'"
proof -
  obtain out where out:
    "\<forall>depth. reduce depth s = Inr out \<or> reduce depth s = Inl RecursionError"
    "\<forall>depth. 3 * length s div 2 < depth \<longrightarrow> reduce depth s = Inr out"
    "apply_seq out img = apply_seq s img"
    using reduce_spec [of s, where ?'p = 'a] by blast
  obtain img' where "apply_seq s img = Inr img'"
    using apply_seq_total by blast
  with out show ?thesis
    by auto
qed

theorem reduce_preserves_image_witness:
  "3 * length [ROTATE_LEFT, ROTATE_180] div 2 < (4::nat) \<and>
   reduce 4 [ROTATE_LEFT, ROTATE_180] = Inr [r] \<and>
   apply_seq [r] an_image = apply_seq [ROTATE_LEFT, ROTATE_180] an_image"
proof -
  obtain out img' where out:
    "\<forall>depth. 3 * length [ROTATE_LEFT, ROTATE_180] div 2 < depth \<longrightarrow>
       reduce depth [ROTATE_LEFT, ROTATE_180] = Inr out"
    "apply_seq [ROTATE_LEFT, ROTATE_180] an_image = Inr img'"
    "apply_seq out an_image = Inr img'"
    using reduce_preserves_image [of "[ROTATE_LEFT, ROTATE_180]" an_image] by blast
  have val: "reduce 4 [ROTATE_LEFT, ROTATE_180] = Inr [r]"
    by (simp add: reduce_def rewrite_to_base_form_def rewrite_to_rich_form_def
        BIJECTIVE_BASE_RICH_MAP_def representative_def class_defs eval_nat_numeral)
  have room: "3 * length [ROTATE_LEFT, ROTATE_180] div 2 < (4::nat)"
    by simp
  with out(1) have "reduce 4 [ROTATE_LEFT, ROTATE_180] = Inr out"
    by blast
  with val have "out = [r]"
    by simp
  with out(2,3) val room show ?thesis
    by simp
qed

text \<open>
  C2.  For every sequence of named transformations, of any length, the sequence that
  \<open>reduce\<close> returns has length at most 3.
\<close>

theorem reduce_length_le_3:
  "\<exists>out.
     (\<forall>depth. reduce depth s = Inr out \<or> reduce depth s = Inl RecursionError) \<and>
     (\<forall>depth. 3 * length s div 2 < depth \<longrightarrow> reduce depth s = Inr out) \<and>
     length out \<le> 3"
proof -
  obtain out where
    "\<forall>depth. reduce depth s = Inr out \<or> reduce depth s = Inl RecursionError"
    "\<forall>depth. 3 * length s div 2 < depth \<longrightarrow> reduce depth s = Inr out"
    "length out \<le> 2"
    using reduce_spec [of s, where ?'p = unit] by blast
  then show ?thesis
    by (intro exI [of _ out]) simp
qed

theorem reduce_length_le_3_witness:
  "3 * length [FLIP_LEFT_RIGHT, ROTATE_180] div 2 < (4::nat) \<and>
   reduce 4 [FLIP_LEFT_RIGHT, ROTATE_180] = Inr [f] \<and> length [f] \<le> 3"
proof -
  obtain out where out:
    "\<forall>depth. 3 * length [FLIP_LEFT_RIGHT, ROTATE_180] div 2 < depth \<longrightarrow>
       reduce depth [FLIP_LEFT_RIGHT, ROTATE_180] = Inr out"
    "length out \<le> 3"
    using reduce_length_le_3 [of "[FLIP_LEFT_RIGHT, ROTATE_180]"] by blast
  have val: "reduce 4 [FLIP_LEFT_RIGHT, ROTATE_180] = Inr [f]"
    by (simp add: reduce_def rewrite_to_base_form_def rewrite_to_rich_form_def
        BIJECTIVE_BASE_RICH_MAP_def representative_def class_defs eval_nat_numeral)
  have room: "3 * length [FLIP_LEFT_RIGHT, ROTATE_180] div 2 < (4::nat)"
    by simp
  with out(1) have "reduce 4 [FLIP_LEFT_RIGHT, ROTATE_180] = Inr out"
    by blast
  with val have "out = [f]"
    by simp
  with out(2) val room show ?thesis
    by simp
qed

text \<open>
  C3.  \<open>reduce\<close> is idempotent: \<open>reduce\<close> returns its own result unchanged, at the depth at
  which it returned it and at any other depth above zero.
\<close>

theorem reduce_idempotent:
  "\<exists>out.
     (\<forall>depth. reduce depth s = Inr out \<or> reduce depth s = Inl RecursionError) \<and>
     (\<forall>depth. 3 * length s div 2 < depth \<longrightarrow> reduce depth s = Inr out) \<and>
     (\<forall>depth. reduce depth s = Inr out \<longrightarrow> reduce depth out = Inr out) \<and>
     (\<forall>depth. 0 < depth \<longrightarrow> reduce depth out = Inr out)"
proof -
  obtain c out where out: "c \<in> set canonical_forms" "rewrite_to_rich_form (Some c) = Inr out"
    "\<forall>depth. reduce depth s = Inr out \<or> reduce depth s = Inl RecursionError"
    "\<forall>depth. 3 * length s div 2 < depth \<longrightarrow> reduce depth s = Inr out"
    using reduce_spec [of s, where ?'p = unit] by blast
  have again: "reduce depth out = Inr out" if "0 < depth" for depth
  proof -
    from that obtain d where "depth = Suc d"
      by (cases depth) simp_all
    with reduce_fixed [OF out(1,2)] show ?thesis
      by simp
  qed
  have "reduce depth out = Inr out" if "reduce depth s = Inr out" for depth
  proof -
    from that reduce_no_room [of s] have "0 < depth"
      by (cases depth) simp_all
    then show ?thesis
      by (rule again)
  qed
  with out(3,4) again show ?thesis
    by (intro exI [of _ out]) simp
qed

theorem reduce_idempotent_witness:
  "3 * length [ROTATE_180, ROTATE_RIGHT] div 2 < (4::nat) \<and>
   reduce 4 [ROTATE_180, ROTATE_RIGHT] = Inr [ROTATE_LEFT] \<and>
   reduce 4 [ROTATE_LEFT] = Inr [ROTATE_LEFT]"
proof -
  obtain out where out:
    "\<forall>depth. 3 * length [ROTATE_180, ROTATE_RIGHT] div 2 < depth \<longrightarrow>
       reduce depth [ROTATE_180, ROTATE_RIGHT] = Inr out"
    "\<forall>depth. reduce depth [ROTATE_180, ROTATE_RIGHT] = Inr out \<longrightarrow> reduce depth out = Inr out"
    using reduce_idempotent [of "[ROTATE_180, ROTATE_RIGHT]"] by blast
  have val: "reduce 4 [ROTATE_180, ROTATE_RIGHT] = Inr [ROTATE_LEFT]"
    by (simp add: reduce_def rewrite_to_base_form_def rewrite_to_rich_form_def
        BIJECTIVE_BASE_RICH_MAP_def representative_def class_defs eval_nat_numeral)
  have room: "3 * length [ROTATE_180, ROTATE_RIGHT] div 2 < (4::nat)"
    by simp
  with out(1) have eq: "reduce 4 [ROTATE_180, ROTATE_RIGHT] = Inr out"
    by blast
  with val have "out = [ROTATE_LEFT]"
    by simp
  with out(2) eq val room show ?thesis
    by auto
qed




text \<open>
  C5.  On a sequence of the two base transformations that is none of the eight canonical
  forms, \<open>rewrite_to_rich_form\<close> fails, as the specification says; but what it raises on
  \<open>(FLIP_TOP_BOTTOM, FLIP_TOP_BOTTOM)\<close> is \<open>TypeError\<close>, from the \<open>str + tuple\<close> of its handler,
  and not the \<open>ValueError\<close> that its \<open>raise\<close> statement names.
\<close>

theorem rewrite_to_rich_form_raises_TypeError:
  "rewrite_to_rich_form (Some [FLIP_TOP_BOTTOM, FLIP_TOP_BOTTOM]) = Inl TypeError \<and>
   rewrite_to_rich_form (Some [FLIP_TOP_BOTTOM, FLIP_TOP_BOTTOM]) \<noteq> Inl ValueError \<and>
   [FLIP_TOP_BOTTOM, FLIP_TOP_BOTTOM] \<notin> set canonical_forms"
  by (simp add: rewrite_to_rich_form_def BIJECTIVE_BASE_RICH_MAP_def canonical_forms_eq)




text \<open>
  C7.  \<open>reduce_base_form\<close> terminates on sequences of every length.  The representative
  of each of the eight classes has length at most 3; a recursive call replaces the first
  four elements by their representative and keeps the tail, so its argument is strictly
  shorter than the sequence; the relation between the argument of a call and the
  argument of the recursive call it makes is well-founded; and with room for more nested
  calls than half the length of the sequence no call overflows the stack, so that the
  function returns or raises \<open>TypeError\<close>.  The second conjunct ties \<open>recursive_call\<close> to
  the function.
\<close>

theorem reduce_base_form_terminates:
  "(\<forall>EQ \<in> set ALL_EQ. length (hd EQ) \<le> 3) \<and>
   reduce_base_form (Suc depth) s =
     (case recursive_call s of
        Some s' \<Rightarrow> reduce_base_form depth s'
      | None \<Rightarrow> if length s < 5 then Inr (representative s) else Inl TypeError) \<and>
   (\<forall>s'. recursive_call s = Some s' \<longrightarrow> length s' < length s) \<and>
   wf {(s', s). recursive_call s = Some s'} \<and>
   (length s div 2 < depth \<longrightarrow> reduce_base_form depth s \<noteq> Inl RecursionError)"
proof -
  have lengths: "\<forall>EQ \<in> set ALL_EQ. length (hd EQ) \<le> 3"
    by (simp add: class_defs)
  have "{(s', s). recursive_call s = Some s'} \<subseteq> measure length"
    using recursive_call_shrinks by auto
  then have "wf {(s', s). recursive_call s = Some s'}"
    by (rule wf_subset [OF wf_measure])
  with lengths reduce_base_form_unfold [of depth s] recursive_call_shrinks
    reduce_base_form_enough_room [of s depth]
  show ?thesis
    by blast
qed

theorem reduce_base_form_terminates_witness:
  "R \<in> set ALL_EQ \<and> length (hd R) \<le> 3 \<and>
   recursive_call [r, r, r, r, f] = Some [f] \<and> length [f] < length [r, r, r, r, f] \<and>
   reduce_base_form (Suc 3) [r, r, r, r, f] = reduce_base_form 3 [f] \<and>
   length [r, r, r, r, f] div 2 < (3::nat) \<and>
   reduce_base_form 3 [r, r, r, r, f] \<noteq> Inl RecursionError"
proof -
  have call: "recursive_call [r, r, r, r, f] = Some [f]"
    by (simp add: recursive_call_def representative_def class_defs)
  have "R \<in> set ALL_EQ"
    by (simp add: ALL_EQ_def)
  moreover have "length [r, r, r, r, f] div 2 < (3::nat)"
    by simp
  ultimately show ?thesis
    using call reduce_base_form_terminates [of 3 "[r, r, r, r, f]"] by auto
qed

text \<open>
  C8.  For each of the five named transformations \<open>t\<close>, the expansion of \<open>t\<close> is the
  dictionary's entry for \<open>(t,)\<close>, which is what \<open>rewrite_to_base_form\<close> returns on \<open>(t,)\<close>,
  and \<open>rewrite_to_rich_form\<close> maps it back to the one-element sequence \<open>(t,)\<close>.  The
  expansion of \<open>ROTATE_LEFT\<close> is \<open>(r, r, r)\<close>.
\<close>

theorem expand_contract_roundtrip:
  "(\<exists>b. map_of BIJECTIVE_BASE_RICH_MAP [t] = Some b \<and> rewrite_to_base_form [t] = Inr b \<and>
        rewrite_to_rich_form (Some b) = Inr [t]) \<and>
   rewrite_to_base_form [ROTATE_LEFT] = Inr [r, r, r] \<and>
   rewrite_to_rich_form (Some [r, r, r]) = Inr [ROTATE_LEFT]"
  by (cases t)
    (simp_all add: rewrite_to_base_form_def rewrite_to_rich_form_def BIJECTIVE_BASE_RICH_MAP_def)

text \<open>
  C9.  For every sequence of the five named transformations, \<open>rewrite_to_base_form\<close>
  returns a sequence of \<open>FLIP_TOP_BOTTOM\<close> and \<open>ROTATE_RIGHT\<close> only; every lookup that
  \<open>reduce_base_form\<close> makes on that base form finds a class, and \<open>reduce_base_form\<close>
  never returns \<open>None\<close> on it and never raises \<open>TypeError\<close>: it returns a tuple, or
  overflows the stack when the depth is too small.
\<close>

theorem reduce_lookups_always_match:
  "\<exists>b. rewrite_to_base_form s = Inr b \<and> set b \<subseteq> {f, r} \<and>
       (\<forall>depth. \<forall>w \<in> set (lookups depth b). representative w \<noteq> None) \<and>
       (\<forall>depth. (\<exists>c. reduce_base_form depth b = Inr (Some c)) \<or>
                reduce_base_form depth b = Inl RecursionError) \<and>
       (\<forall>depth. length b div 2 < depth \<longrightarrow> (\<exists>c. reduce_base_form depth b = Inr (Some c)))"
proof -
  obtain b c where b: "rewrite_to_base_form s = Inr b" "set b \<subseteq> {f, r}"
    "\<forall>depth. reduce_base_form depth b = Inr (Some c) \<or>
             reduce_base_form depth b = Inl RecursionError"
    "\<forall>depth. length b div 2 < depth \<longrightarrow> reduce_base_form depth b = Inr (Some c)"
    using reduce_spec [of s, where ?'p = unit] by blast
  from b(2) have "\<forall>depth. \<forall>w \<in> set (lookups depth b). representative w \<noteq> None"
    using lookups_found by blast
  with b show ?thesis
    by (intro exI [of _ b]) blast
qed

theorem reduce_lookups_always_match_witness:
  "rewrite_to_base_form [ROTATE_LEFT, ROTATE_180] = Inr [r, r, r, r, r] \<and>
   lookups 3 [r, r, r, r, r] = [[r, r, r, r], [r]] \<and>
   representative [r, r, r, r] \<noteq> None \<and> representative [r] \<noteq> None \<and>
   length [r, r, r, r, r] div 2 < (3::nat) \<and>
   (\<exists>c. reduce_base_form 3 [r, r, r, r, r] = Inr (Some c))"
proof -
  have b: "rewrite_to_base_form [ROTATE_LEFT, ROTATE_180] = Inr [r, r, r, r, r]"
    by (simp add: rewrite_to_base_form_def BIJECTIVE_BASE_RICH_MAP_def)
  have rep: "representative [r, r, r, r] = Some []"
    by (simp add: representative_def class_defs)
  have l: "lookups 3 [r, r, r, r, r] = [[r, r, r, r], [r]]"
    by (simp add: rep eval_nat_numeral)
  have "length [r, r, r, r, r] div 2 < (3::nat)"
    by simp
  with reduce_lookups_always_match [of "[ROTATE_LEFT, ROTATE_180]"] b l show ?thesis
    by (metis Inr_inject list.set_intros(1) list.set_intros(2))
qed

text \<open>
  C10.  For every sequence of named transformations the sequence that \<open>reduce\<close> returns
  has length at most 2, because the dictionary's entry for each of the eight canonical
  forms has at most two elements.
\<close>

theorem reduce_length_le_2:
  "(\<exists>out.
     (\<forall>depth. reduce depth s = Inr out \<or> reduce depth s = Inl RecursionError) \<and>
     (\<forall>depth. 3 * length s div 2 < depth \<longrightarrow> reduce depth s = Inr out) \<and>
     length out \<le> 2) \<and>
   (\<forall>c \<in> set canonical_forms.
      \<exists>v. map_of BIJECTIVE_BASE_RICH_MAP c = Some v \<and> length v \<le> 2)"
proof -
  obtain out where
    "\<forall>depth. reduce depth s = Inr out \<or> reduce depth s = Inl RecursionError"
    "\<forall>depth. 3 * length s div 2 < depth \<longrightarrow> reduce depth s = Inr out"
    "length out \<le> 2"
    using reduce_spec [of s, where ?'p = unit] by blast
  then have "\<exists>out.
     (\<forall>depth. reduce depth s = Inr out \<or> reduce depth s = Inl RecursionError) \<and>
     (\<forall>depth. 3 * length s div 2 < depth \<longrightarrow> reduce depth s = Inr out) \<and>
     length out \<le> 2"
    by (intro exI [of _ out]) simp
  moreover have "\<forall>c \<in> set canonical_forms.
      \<exists>v. map_of BIJECTIVE_BASE_RICH_MAP c = Some v \<and> length v \<le> 2"
    unfolding canonical_forms_eq by (simp add: BIJECTIVE_BASE_RICH_MAP_def)
  ultimately show ?thesis
    by blast
qed

theorem reduce_length_le_2_witness:
  "3 * length [ROTATE_LEFT, FLIP_LEFT_RIGHT, ROTATE_180] div 2 < (5::nat) \<and>
   reduce 5 [ROTATE_LEFT, FLIP_LEFT_RIGHT, ROTATE_180] = Inr [f, r] \<and>
   length [f, r] \<le> 2 \<and> [f, r] \<in> set canonical_forms \<and>
   (\<exists>v. map_of BIJECTIVE_BASE_RICH_MAP [f, r] = Some v \<and> length v \<le> 2)"
proof -
  obtain out where out:
    "\<forall>depth. 3 * length [ROTATE_LEFT, FLIP_LEFT_RIGHT, ROTATE_180] div 2 < depth \<longrightarrow>
       reduce depth [ROTATE_LEFT, FLIP_LEFT_RIGHT, ROTATE_180] = Inr out"
    "length out \<le> 2"
    and dict: "\<forall>c \<in> set canonical_forms.
      \<exists>v. map_of BIJECTIVE_BASE_RICH_MAP c = Some v \<and> length v \<le> 2"
    using reduce_length_le_2 [of "[ROTATE_LEFT, FLIP_LEFT_RIGHT, ROTATE_180]"] by blast
  have val: "reduce 5 [ROTATE_LEFT, FLIP_LEFT_RIGHT, ROTATE_180] = Inr [f, r]"
    by (simp add: reduce_def rewrite_to_base_form_def rewrite_to_rich_form_def
        BIJECTIVE_BASE_RICH_MAP_def representative_def class_defs eval_nat_numeral)
  have room: "3 * length [ROTATE_LEFT, FLIP_LEFT_RIGHT, ROTATE_180] div 2 < (5::nat)"
    by simp
  with out(1) have "reduce 5 [ROTATE_LEFT, FLIP_LEFT_RIGHT, ROTATE_180] = Inr out"
    by blast
  with val have "out = [f, r]"
    by simp
  moreover have "[f, r] \<in> set canonical_forms"
    by (simp add: canonical_forms_eq)
  ultimately show ?thesis
    using out(2) val room dict by blast
qed

end
